theory Spec2Isabelle
  imports Complex_Main "HOL-Library.Multiset"
begin

section \<open>The browser pool (app/core/browser.py)\<close>

text \<open>
  A \<open>BrowserInstance\<close> is a mutable object shared between the pool's list and the
  caller that borrowed it, so instances live in a store indexed by address and the pool
  is a list of addresses. The driver handle of an instance is a number; \<open>quit_log\<close>
  lists the handles on which \<open>quit()\<close> has been called, in call order. Time is the value
  of \<open>time.time()\<close>, passed to each operation.
\<close>

record browser_instance =
  driver :: nat
  last_used :: real
  in_use :: bool

record pool_settings =
  BROWSER_POOL_SIZE :: int
  BROWSER_MAX_IDLE_TIME :: int

record browser_pool =
  insts :: "nat \<Rightarrow> browser_instance"
  pool :: "nat list"
  quit_log :: "nat list"
  next_id :: nat
  running :: bool

datatype pool_error = BrowserLaunchFailure

text \<open>\<open>BrowserPool.__init__\<close>: an empty pool.\<close>

definition new_instance :: "nat \<Rightarrow> real \<Rightarrow> browser_instance" where
  "new_instance d now = \<lparr>driver = d, last_used = now, in_use = False\<rparr>"

definition init_pool :: browser_pool where
  "init_pool = \<lparr>insts = (\<lambda>_. new_instance 0 0), pool = [], quit_log = [], next_id = 0,
     running = True\<rparr>"

text \<open>
  The first half of \<open>get_browser\<close>, up to the \<open>yield\<close>. \<open>created\<close> tells whether
  \<open>_create_browser\<close> returns a driver (\<open>True\<close>) or raises; it is consulted only on the
  paths that call it. The result is the address of the instance the caller holds.
\<close>

definition mark_used :: "real \<Rightarrow> browser_instance \<Rightarrow> browser_instance" where
  "mark_used now i = i\<lparr>in_use := True, last_used := now\<rparr>"

definition create_instance :: "real \<Rightarrow> browser_pool \<Rightarrow> nat \<times> browser_pool" where
  "create_instance now s =
     (next_id s,
      s\<lparr>insts := (insts s)(next_id s := (new_instance (next_id s) now)\<lparr>in_use := True\<rparr>),
        next_id := Suc (next_id s)\<rparr>)"

definition get_browser :: "pool_settings \<Rightarrow> real \<Rightarrow> bool \<Rightarrow> browser_pool
    \<Rightarrow> (pool_error + nat) \<times> browser_pool" where
  "get_browser cfg now created s =
     (case find (\<lambda>a. \<not> in_use (insts s a)) (pool s) of
        Some a \<Rightarrow> (Inr a, s\<lparr>insts := (insts s)(a := mark_used now (insts s a))\<rparr>)
      | None \<Rightarrow>
          if int (length (pool s)) < BROWSER_POOL_SIZE cfg then
            (if created then
               (let (a, s') = create_instance now s
                in (Inr a, s'\<lparr>pool := pool s' @ [a]\<rparr>))
             else (Inl BrowserLaunchFailure, s))
          else
            (if created then
               (let (a, s') = create_instance now s in (Inr a, s'))
             else (Inl BrowserLaunchFailure, s)))"

text \<open>The \<open>finally\<close> block of \<open>get_browser\<close>, run for the instance the caller held.\<close>

definition release :: "nat \<Rightarrow> real \<Rightarrow> browser_pool \<Rightarrow> browser_pool" where
  "release a now s =
     s\<lparr>insts := (insts s)(a := (insts s a)\<lparr>in_use := False, last_used := now\<rparr>)\<rparr>"

text \<open>One pass of the body of \<open>cleanup\<close> (after the sleep), at time \<open>now\<close>.\<close>

definition idle :: "pool_settings \<Rightarrow> real \<Rightarrow> browser_pool \<Rightarrow> nat \<Rightarrow> bool" where
  "idle cfg now s a \<longleftrightarrow>
     \<not> in_use (insts s a) \<and> now - last_used (insts s a) > real_of_int (BROWSER_MAX_IDLE_TIME cfg)"

definition quit_and_remove :: "nat \<Rightarrow> browser_pool \<Rightarrow> browser_pool" where
  "quit_and_remove a s =
     s\<lparr>quit_log := quit_log s @ [driver (insts s a)], pool := remove1 a (pool s)\<rparr>"

definition cleanup :: "pool_settings \<Rightarrow> real \<Rightarrow> browser_pool \<Rightarrow> browser_pool" where
  "cleanup cfg now s = fold quit_and_remove (filter (idle cfg now s) (pool s)) s"

definition shutdown :: "browser_pool \<Rightarrow> browser_pool" where
  "shutdown s =
     s\<lparr>running := False, quit_log := quit_log s @ map (\<lambda>a. driver (insts s a)) (pool s),
       pool := []\<rparr>"

text \<open>
  The lock makes each of these an atomic step on the pool, so a concurrent execution is
  a sequence of them.
\<close>

datatype pool_op =
    Borrow real bool
  | Release nat real
  | Sweep real
  | Shutdown

fun apply_op :: "pool_settings \<Rightarrow> browser_pool \<Rightarrow> pool_op \<Rightarrow> browser_pool" where
  "apply_op cfg s (Borrow now created) = snd (get_browser cfg now created s)"
| "apply_op cfg s (Release a now) = release a now s"
| "apply_op cfg s (Sweep now) = cleanup cfg now s"
| "apply_op cfg s Shutdown = shutdown s"

definition run_ops :: "pool_settings \<Rightarrow> browser_pool \<Rightarrow> pool_op list \<Rightarrow> browser_pool" where
  "run_ops cfg s ops = foldl (apply_op cfg) s ops"

text \<open>Addresses in the pool are allocated and pairwise different.\<close>

definition pool_wf :: "browser_pool \<Rightarrow> bool" where
  "pool_wf s \<longleftrightarrow> distinct (pool s) \<and> list_all (\<lambda>a. a < next_id s) (pool s)"

definition within_capacity :: "pool_settings \<Rightarrow> browser_pool \<Rightarrow> bool" where
  "within_capacity cfg s \<longleftrightarrow> int (length (pool s)) \<le> BROWSER_POOL_SIZE cfg"

text \<open>An allocated address that is not in the pool.\<close>

definition outside :: "nat \<Rightarrow> browser_pool \<Rightarrow> bool" where
  "outside a s \<longleftrightarrow> a < next_id s \<and> a \<notin> set (pool s)"

text \<open>Concrete configurations and runs used to instantiate the theorems below.\<close>

definition cfg1 :: pool_settings where
  "cfg1 = \<lparr>BROWSER_POOL_SIZE = 1, BROWSER_MAX_IDLE_TIME = 300\<rparr>"

definition cfg3 :: pool_settings where
  "cfg3 = \<lparr>BROWSER_POOL_SIZE = 3, BROWSER_MAX_IDLE_TIME = 300\<rparr>"

definition ops3 :: "pool_op list" where
  "ops3 = [Borrow 0 True, Borrow 1 True, Borrow 2 True, Release 0 2, Release 2 350]"

definition pool_full :: browser_pool where
  "pool_full = snd (get_browser cfg1 0 True init_pool)"

definition pool_overflow :: browser_pool where
  "pool_overflow = snd (get_browser cfg1 1 True pool_full)"

section \<open>The crawlers (crawler.py, app/services/scraping_service.py, app_simple.py)\<close>

subsection \<open>What the crawlers see of the outside world\<close>

text \<open>
  The library functions and the browser are parameters of the model. \<open>urlparse\<close>,
  \<open>urljoin\<close> and \<open>re_search\<close> stand for \<open>urllib.parse.urlparse\<close> (the three fields
  the code reads), \<open>urllib.parse.urljoin\<close> and \<open>re.search(pattern, url)\<close> (whether it
  finds a match). \<open>load url\<close> is the outcome of navigating the browser to \<open>url\<close> and
  reading the page: \<open>None\<close> when any step of that raises (timeout, WebDriver error,
  missing body), otherwise what the driver reported. \<open>hrefs\<close> is the list of
  \<open>href\<close> attributes the link extraction got to read, in document order (\<open>[]\<close> stands
  for an absent or empty attribute). Within one crawl a URL is loaded at most once, so a
  function of the URL loses no behaviour. Every theorem below holds for every such
  \<open>web\<close>.
\<close>

record parse_result =
  scheme :: string
  netloc :: string
  path :: string

record page =
  title :: string
  description :: string
  content :: string
  hrefs :: "string list"
  links_count :: nat
  images_count :: nat
  forms_count :: nat
  scripts_count :: nat

record web =
  urlparse :: "string \<Rightarrow> parse_result"
  urljoin :: "string \<Rightarrow> string \<Rightarrow> string"
  re_search :: "string \<Rightarrow> string \<Rightarrow> bool"
  load :: "string \<Rightarrow> page option"

text \<open>Python's \<open>s.startswith(p)\<close>, \<open>s.endswith(p)\<close> and \<open>p in s\<close> on strings.\<close>

definition startswith :: "string \<Rightarrow> string \<Rightarrow> bool" where
  "startswith s p \<longleftrightarrow> take (length p) s = p"

definition endswith :: "string \<Rightarrow> string \<Rightarrow> bool" where
  "endswith s p \<longleftrightarrow> length p \<le> length s \<and> drop (length s - length p) s = p"

fun contains :: "string \<Rightarrow> string \<Rightarrow> bool" where
  "contains [] p = (p = [])"
| "contains (c # cs) p = (startswith (c # cs) p \<or> contains cs p)"

text \<open>
  The settings dictionary handed to a crawler; a key that is absent reads as the default
  of the \<open>settings.get\<close> call, given by \<open>default_settings\<close>. Each crawler reads the
  keys it reads: crawler.py never reads \<open>max_pages\<close>, scraping_service.py never reads
  \<open>max_pages_per_domain\<close>.
\<close>

record settings =
  max_depth :: int
  max_pages :: int
  max_pages_per_domain :: int
  follow_external_links :: bool
  restrict_to_domains :: "string list"
  ignore_query_strings :: bool
  exclude_url_patterns :: "string list"

definition default_settings :: settings where
  "default_settings = \<lparr>max_depth = 1, max_pages = 10, max_pages_per_domain = 10,
     follow_external_links = False, restrict_to_domains = [], ignore_query_strings = True,
     exclude_url_patterns = []\<rparr>"

definition get_domain :: "web \<Rightarrow> string \<Rightarrow> string" where
  "get_domain w url = netloc (urlparse w url)"

text \<open>\<open>f"{parsed.scheme}://{parsed.netloc}{parsed.path}"\<close>, in both crawlers.\<close>

definition normalize_url :: "web \<Rightarrow> string \<Rightarrow> string" where
  "normalize_url w url =
     (let parsed = urlparse w url in scheme parsed @ ''://'' @ netloc parsed @ path parsed)"

subsection \<open>The queue-based crawler of crawler.py\<close>

record page_data =
  url :: string
  pd_title :: string
  pd_description :: string
  pd_content :: string
  pd_links_count :: nat
  pd_images_count :: nat
  pd_forms_count :: nat
  pd_scripts_count :: nat
  depth :: int
  domain :: string

record crawler =
  visited_urls :: "string set"
  url_queue :: "(string \<times> int) list"
  results :: "page_data list"
  pages_crawled_per_domain :: "string \<rightharpoonup> int"

definition is_allowed_domain :: "string list \<Rightarrow> string \<Rightarrow> bool" where
  "is_allowed_domain restrict_domains dmn \<longleftrightarrow>
     dmn \<in> set restrict_domains \<or>
     list_ex (\<lambda>allowed_domain. endswith dmn (''.'' @ allowed_domain) \<or> dmn = allowed_domain)
       restrict_domains"

text \<open>The domain is in the counter and its count has reached \<open>max_pages_per_domain\<close>.\<close>

definition domain_full :: "settings \<Rightarrow> (string \<rightharpoonup> int) \<Rightarrow> string \<Rightarrow> bool" where
  "domain_full cfg counts dmn =
     (case counts dmn of Some n \<Rightarrow> n \<ge> max_pages_per_domain cfg | None \<Rightarrow> False)"

definition should_follow_url :: "web \<Rightarrow> settings \<Rightarrow> crawler \<Rightarrow> string \<Rightarrow> string \<Rightarrow> bool" where
  "should_follow_url w cfg st base_url u =
     (if u = [] \<or> startswith u ''javascript:'' \<or> u = ''#'' then False
      else let dmn = netloc (urlparse w u) in
        if dmn = [] then True
        else let base_domain = get_domain w base_url in
          if restrict_to_domains cfg \<noteq> []
             \<and> \<not> is_allowed_domain (restrict_to_domains cfg) dmn
             \<and> \<not> follow_external_links cfg then False
          else if dmn \<noteq> base_domain \<and> \<not> follow_external_links cfg then False
          else if dmn \<noteq> base_domain
             \<and> domain_full cfg (pages_crawled_per_domain st) dmn then False
          else if list_ex (\<lambda>pattern. re_search w pattern u) (exclude_url_patterns cfg) then False
          else if ignore_query_strings cfg \<and> normalize_url w u \<in> visited_urls st then False
          else if u \<in> visited_urls st then False
          else True)"

definition extract_links :: "web \<Rightarrow> settings \<Rightarrow> crawler \<Rightarrow> string \<Rightarrow> string list \<Rightarrow> string list" where
  "extract_links w cfg st u hs =
     filter (should_follow_url w cfg st u) (map (urljoin w u) (filter (\<lambda>href. href \<noteq> []) hs))"

text \<open>
  \<open>crawl_page\<close> returns the record, or \<open>None\<close> where the source returns \<open>None\<close>,
  together with the crawler's state after the call. Every exception inside the
  \<open>try\<close> is raised before the domain counter is incremented, and is caught there.
\<close>

definition crawl_page :: "web \<Rightarrow> settings \<Rightarrow> crawler \<Rightarrow> string \<Rightarrow> int
    \<Rightarrow> crawler \<times> page_data option" where
  "crawl_page w cfg st u d =
     (if d > max_depth cfg then (st, None)
      else if u \<in> visited_urls st then (st, None)
      else let dmn = get_domain w u in
        if domain_full cfg (pages_crawled_per_domain st) dmn then (st, None)
        else
          let n = (case pages_crawled_per_domain st dmn of Some n \<Rightarrow> n | None \<Rightarrow> 0);
              st1 = st\<lparr>pages_crawled_per_domain := (pages_crawled_per_domain st)(dmn \<mapsto> n),
                      visited_urls := insert u (visited_urls st)\<rparr>
          in case load w u of
               None \<Rightarrow> (st1, None)
             | Some pg \<Rightarrow>
                 let st2 = st1\<lparr>pages_crawled_per_domain :=
                                (pages_crawled_per_domain st1)(dmn \<mapsto> n + 1)\<rparr>;
                     st3 = (if d < max_depth cfg then
                              st2\<lparr>url_queue := url_queue st2 @
                                    map (\<lambda>link. (link, d + 1))
                                      (filter (\<lambda>link. link \<notin> visited_urls st2)
                                         (extract_links w cfg st2 u (hrefs pg)))\<rparr>
                            else st2)
                 in (st3, Some \<lparr>url = u, pd_title = title pg, pd_description = description pg,
                       pd_content = content pg, pd_links_count = links_count pg,
                       pd_images_count = images_count pg, pd_forms_count = forms_count pg,
                       pd_scripts_count = scripts_count pg, depth = d, domain = dmn\<rparr>))"

text \<open>One iteration of the \<open>while\<close> loop of \<open>crawl\<close>, after the \<open>pop(0)\<close>.\<close>

definition crawl_iter :: "web \<Rightarrow> settings \<Rightarrow> crawler \<Rightarrow> string \<times> int \<Rightarrow> crawler" where
  "crawl_iter w cfg st item =
     (let u = fst item; d = snd item in
      if u \<in> visited_urls st then st
      else let (st', page_data) = crawl_page w cfg st u d in
        case page_data of
          None \<Rightarrow> st'
        | Some r \<Rightarrow> st'\<lparr>results := results st' @ [r]\<rparr>)"

text \<open>The weight of a queue entry: how many levels below it may still be enqueued.\<close>

definition levels_left :: "settings \<Rightarrow> string \<times> int \<Rightarrow> nat" where
  "levels_left cfg item = nat (max_depth cfg - snd item)"

definition queue_weight :: "settings \<Rightarrow> crawler \<Rightarrow> nat multiset" where
  "queue_weight cfg st = mset (map (levels_left cfg) (url_queue st))"

text \<open>
  The loop ends: an iteration removes the head of the queue and appends only entries one
  level deeper, and only while the head is above \<open>max_depth\<close>, so the multiset of
  weights decreases.
\<close>

lemma crawl_page_queue:
  "\<exists>new. url_queue (fst (crawl_page w cfg st u d)) = url_queue st @ new \<and>
      (\<forall>item \<in> set new. snd item = d + 1 \<and> d < max_depth cfg \<and>
         (\<exists>st'. should_follow_url w cfg st' u (fst item)))"
  by (auto simp: crawl_page_def extract_links_def Let_def split: option.splits)

lemma crawl_iter_queue:
  "\<exists>new. url_queue (crawl_iter w cfg st item) = url_queue st @ new \<and>
      (\<forall>e \<in> set new. snd e = snd item + 1 \<and> snd item < max_depth cfg \<and>
         (\<exists>st'. should_follow_url w cfg st' (fst item) (fst e)))"
proof -
  obtain new where n:
    "url_queue (fst (crawl_page w cfg st (fst item) (snd item))) = url_queue st @ new"
    "\<forall>e \<in> set new. snd e = snd item + 1 \<and> snd item < max_depth cfg \<and>
         (\<exists>st'. should_follow_url w cfg st' (fst item) (fst e))"
    using crawl_page_queue [of w cfg st "fst item" "snd item"] by blast
  show ?thesis
  proof (cases "fst item \<in> visited_urls st")
    case True
    then show ?thesis by (simp add: crawl_iter_def Let_def)
  next
    case False
    then show ?thesis using n
      by (cases "crawl_page w cfg st (fst item) (snd item)")
         (auto simp: crawl_iter_def Let_def split: option.splits)
  qed
qed

lemma queue_weight_decreases:
  assumes "url_queue st = item # rest"
  shows "(queue_weight cfg (crawl_iter w cfg (st\<lparr>url_queue := rest\<rparr>) item), queue_weight cfg st)
           \<in> mult {(a, b). a < b}"
proof -
  obtain new where n: "url_queue (crawl_iter w cfg (st\<lparr>url_queue := rest\<rparr>) item) = rest @ new"
     "\<forall>e \<in> set new. snd e = snd item + 1 \<and> snd item < max_depth cfg"
    using crawl_iter_queue [of w cfg "st\<lparr>url_queue := rest\<rparr>" item] by auto
  have "\<forall>k \<in># mset (map (levels_left cfg) new).
          \<exists>j \<in># {#levels_left cfg item#}. (k, j) \<in> {(a, b). a < b}"
    using n(2) by (auto simp: levels_left_def)
  then have "(mset (map (levels_left cfg) rest) + mset (map (levels_left cfg) new),
         mset (map (levels_left cfg) rest) + {#levels_left cfg item#}) \<in> mult {(a, b). a < b}"
    by (intro one_step_implies_mult) auto
  then show ?thesis using n(1) assms by (simp add: queue_weight_def)
qed

text \<open>The \<open>while self.url_queue\<close> loop of \<open>crawl\<close>, and \<open>crawl\<close> itself.\<close>

function crawl_loop :: "web \<Rightarrow> settings \<Rightarrow> crawler \<Rightarrow> crawler" where
  "crawl_loop w cfg st =
     (case url_queue st of
        [] \<Rightarrow> st
      | current_item # rest \<Rightarrow>
          crawl_loop w cfg (crawl_iter w cfg (st\<lparr>url_queue := rest\<rparr>) current_item))"
  by pat_completeness auto
termination
proof (relation "inv_image (mult {(a, b). a < b}) (\<lambda>(w, cfg, st). queue_weight cfg st)")
  show "wf (inv_image (mult {(a::nat, b). a < b}) (\<lambda>(w, cfg, st). queue_weight cfg st))"
    by (intro wf_inv_image wf_mult) (simp add: wf)
next
  fix w :: web and cfg :: settings and st :: crawler and current_item rest
  assume "url_queue st = current_item # rest"
  then show "((w, cfg, crawl_iter w cfg (st\<lparr>url_queue := rest\<rparr>) current_item), (w, cfg, st))
       \<in> inv_image (mult {(a, b). a < b}) (\<lambda>(w, cfg, st). queue_weight cfg st)"
    using queue_weight_decreases [of st current_item rest cfg w] by simp
qed

definition start_state :: "string \<Rightarrow> crawler" where
  "start_state start_url =
     \<lparr>visited_urls = {}, url_queue = [(start_url, 0)], results = [],
      pages_crawled_per_domain = Map.empty\<rparr>"

definition crawl :: "web \<Rightarrow> settings \<Rightarrow> string \<Rightarrow> page_data list" where
  "crawl w cfg start_url = results (crawl_loop w cfg (start_state start_url))"

text \<open>
  How app_simple.py calls this crawler: the request's \<open>CrawlOptions\<close> become the
  settings dictionary, \<open>max_pages\<close> going to the key \<open>max_pages_per_domain\<close>.
\<close>

record crawl_options =
  enabled :: bool
  opt_max_depth :: int
  opt_max_pages :: int
  opt_follow_external_links :: bool
  restrict_to_domain :: bool
  opt_ignore_query_strings :: bool

definition crawler_settings :: "web \<Rightarrow> crawl_options \<Rightarrow> string \<Rightarrow> settings" where
  "crawler_settings w opts start_url =
     default_settings\<lparr>max_depth := opt_max_depth opts,
       max_pages_per_domain := opt_max_pages opts,
       follow_external_links := opt_follow_external_links opts,
       restrict_to_domains :=
         (if restrict_to_domain opts then [netloc (urlparse w start_url)] else []),
       ignore_query_strings := opt_ignore_query_strings opts,
       exclude_url_patterns := []\<rparr>"

definition app_simple_crawl :: "web \<Rightarrow> crawl_options \<Rightarrow> string \<Rightarrow> page_data list" where
  "app_simple_crawl w opts start_url =
     (if enabled opts then crawl w (crawler_settings w opts start_url) start_url else [])"

subsection \<open>The recursive crawler of scraping_service.py\<close>

text \<open>
  Its records carry no depth. \<open>pages_depth\<close> is not in the source: it logs, next to
  each record of \<open>pages_data\<close>, the \<open>depth\<close> argument of the call that appended it, so
  that the order of the records can be related to their depth.
\<close>

record page_entry =
  page_url :: string
  page_title :: string
  page_description :: string
  page_content :: string

record service_crawler =
  svc_visited_urls :: "string set"
  pages_data :: "page_entry list"
  pages_depth :: "int list"

definition svc_should_follow_url :: "web \<Rightarrow> settings \<Rightarrow> string \<Rightarrow> string \<Rightarrow> bool" where
  "svc_should_follow_url w cfg base_url u =
     (if list_ex (\<lambda>pattern. contains u pattern) (exclude_url_patterns cfg) then False
      else if restrict_to_domains cfg = [] then True
      else if \<not> follow_external_links cfg \<and> get_domain w base_url \<noteq> get_domain w u then False
      else get_domain w u \<in> set (restrict_to_domains cfg))"

definition svc_extract_links :: "string list \<Rightarrow> string list" where
  "svc_extract_links hs =
     filter (\<lambda>href. href \<noteq> [] \<and> (startswith href ''http://'' \<or> startswith href ''https://'')) hs"

text \<open>
  \<open>_crawl_recursive\<close>, and its \<open>for link in filtered_links\<close> loop as \<open>crawl_links\<close>
  (the \<open>break\<close> is the \<open>else\<close> branch).
\<close>

function crawl_recursive :: "web \<Rightarrow> settings \<Rightarrow> service_crawler \<Rightarrow> string \<Rightarrow> int
    \<Rightarrow> service_crawler"
  and crawl_links :: "web \<Rightarrow> settings \<Rightarrow> service_crawler \<Rightarrow> string list \<Rightarrow> int
    \<Rightarrow> service_crawler"
where
  "crawl_recursive w cfg st u d =
     (if d > max_depth cfg then st
      else if int (length (pages_data st)) \<ge> max_pages cfg then st
      else let normalized_url = (if ignore_query_strings cfg then normalize_url w u else u) in
        if normalized_url \<in> svc_visited_urls st then st
        else let st1 = st\<lparr>svc_visited_urls := insert normalized_url (svc_visited_urls st)\<rparr> in
          case load w u of
            None \<Rightarrow> st1
          | Some pg \<Rightarrow>
              let st2 = st1\<lparr>pages_data := pages_data st1 @
                              [\<lparr>page_url = u, page_title = title pg,
                                page_description = description pg, page_content = content pg\<rparr>],
                            pages_depth := pages_depth st1 @ [d]\<rparr>
              in if d < max_depth cfg \<and> int (length (pages_data st2)) < max_pages cfg then
                   crawl_links w cfg st2
                     (filter (svc_should_follow_url w cfg u) (svc_extract_links (hrefs pg))) d
                 else st2)"
| "crawl_links w cfg st [] d = st"
| "crawl_links w cfg st (link # links) d =
     (if int (length (pages_data st)) < max_pages cfg then
        crawl_links w cfg (crawl_recursive w cfg st link (d + 1)) links d
      else st)"
  by pat_completeness auto
termination
  by (relation "measures
        [\<lambda>x. case x of Inl (w, cfg, st, u, d) \<Rightarrow> nat (2 * (max_depth cfg - d) + 1)
                      | Inr (w, cfg, st, links, d) \<Rightarrow> max 1 (nat (2 * (max_depth cfg - d))),
         \<lambda>x. case x of Inl (w, cfg, st, u, d) \<Rightarrow> 0
                      | Inr (w, cfg, st, links, d) \<Rightarrow> length links]")
     auto

definition svc_crawl :: "web \<Rightarrow> settings \<Rightarrow> string \<Rightarrow> service_crawler" where
  "svc_crawl w cfg start_url =
     crawl_recursive w cfg \<lparr>svc_visited_urls = {}, pages_data = [], pages_depth = []\<rparr>
       start_url 1"

text \<open>
  How \<open>scrape_with_selenium\<close> calls it: only when \<open>max_depth > 1\<close> and
  \<open>max_pages > 1\<close>, with the configured \<open>EXCLUDE_URL_PATTERNS\<close>.
\<close>

definition service_settings :: "web \<Rightarrow> string list \<Rightarrow> crawl_options \<Rightarrow> string \<Rightarrow> settings" where
  "service_settings w EXCLUDE_URL_PATTERNS opts start_url =
     default_settings\<lparr>max_depth := opt_max_depth opts,
       max_pages := opt_max_pages opts,
       follow_external_links := opt_follow_external_links opts,
       restrict_to_domains :=
         (if restrict_to_domain opts then [get_domain w start_url] else []),
       ignore_query_strings := opt_ignore_query_strings opts,
       exclude_url_patterns := EXCLUDE_URL_PATTERNS\<rparr>"

definition scrape_with_selenium_crawl :: "web \<Rightarrow> string list \<Rightarrow> crawl_options \<Rightarrow> string
    \<Rightarrow> page_entry list" where
  "scrape_with_selenium_crawl w EXCLUDE_URL_PATTERNS opts start_url =
     (if opt_max_depth opts > 1 \<and> opt_max_pages opts > 1 then
        pages_data (svc_crawl w (service_settings w EXCLUDE_URL_PATTERNS opts start_url) start_url)
      else [])"

subsection \<open>A small web for concrete runs\<close>

text \<open>
  A parser that agrees with \<open>urllib.parse.urlparse\<close> on the URLs used below
  (\<open>scheme://host/path?query\<close> and \<open>mailto:address\<close>). Every \<open>href\<close> used below is
  absolute, and \<open>urljoin\<close> returns an absolute URL as it is. The patterns used below
  contain no regular-expression operator, so \<open>re.search\<close> is a substring test.
\<close>

definition path_end :: "char \<Rightarrow> bool" where
  "path_end c \<longleftrightarrow> c = CHR ''?'' \<or> c = CHR ''#''"

definition urlparse_simple :: "string \<Rightarrow> parse_result" where
  "urlparse_simple u =
     (let sch = takeWhile (\<lambda>c. c \<noteq> CHR '':'') u in
      if length sch = length u then
        \<lparr>scheme = [], netloc = [], path = takeWhile (\<lambda>c. \<not> path_end c) u\<rparr>
      else
        let r = drop (length sch + 1) u in
        if take 2 r = ''//'' then
          let host = takeWhile (\<lambda>c. c \<noteq> CHR ''/'' \<and> \<not> path_end c) (drop 2 r) in
          \<lparr>scheme = sch, netloc = host,
           path = takeWhile (\<lambda>c. \<not> path_end c) (drop (length host) (drop 2 r))\<rparr>
        else \<lparr>scheme = sch, netloc = [], path = takeWhile (\<lambda>c. \<not> path_end c) r\<rparr>)"

definition page_with :: "string list \<Rightarrow> page" where
  "page_with hs = \<lparr>title = [], description = [], content = [], hrefs = hs, links_count = length hs,
     images_count = 0, forms_count = 0, scripts_count = 0\<rparr>"

definition web_of :: "(string \<Rightarrow> page option) \<Rightarrow> web" where
  "web_of site = \<lparr>urlparse = urlparse_simple, urljoin = (\<lambda>base href. href),
     re_search = (\<lambda>pattern u. contains u pattern), load = site\<rparr>"

text \<open>A page on a.com that links to a page on b.com.\<close>

definition site_two_domains :: "string \<Rightarrow> page option" where
  "site_two_domains u =
     (if u = ''http://a.com/'' then Some (page_with [''http://b.com/''])
      else if u = ''http://b.com/'' then Some (page_with [])
      else None)"

text \<open>A page that links to the same path twice, with different query strings.\<close>

definition site_query :: "string \<Rightarrow> page option" where
  "site_query u =
     (if u = ''http://a.com/'' then
        Some (page_with [''http://a.com/p?x=1'', ''http://a.com/p?x=2''])
      else if u = ''http://a.com/p?x=1'' \<or> u = ''http://a.com/p?x=2'' then Some (page_with [])
      else None)"

text \<open>
  A start page with two links, the first of which has a link of its own; and a link
  whose page fails to load.
\<close>

definition site_tree :: "string \<Rightarrow> page option" where
  "site_tree u =
     (if u = ''http://a.com/'' then
        Some (page_with [''http://a.com/x'', ''http://a.com/bad'', ''http://a.com/y''])
      else if u = ''http://a.com/x'' then Some (page_with [''http://a.com/x/z''])
      else if u = ''http://a.com/y'' \<or> u = ''http://a.com/x/z'' then Some (page_with [])
      else None)"

definition options_one_page :: crawl_options where
  "options_one_page = \<lparr>enabled = True, opt_max_depth = 1, opt_max_pages = 1,
     opt_follow_external_links = True, restrict_to_domain = False,
     opt_ignore_query_strings = True\<rparr>"

definition options_default :: crawl_options where
  "options_default = \<lparr>enabled = True, opt_max_depth = 3, opt_max_pages = 10,
     opt_follow_external_links = False, restrict_to_domain = True,
     opt_ignore_query_strings = True\<rparr>"

text \<open>A page whose links are a \<open>mailto:\<close> address and a page under /admin.\<close>

definition site_mailto :: "string \<Rightarrow> page option" where
  "site_mailto u =
     (if u = ''http://a.com/'' then Some (page_with [''mailto:admin@a.com'', ''http://a.com/admin/users''])
      else None)"

definition options_mixed :: crawl_options where
  "options_mixed = \<lparr>enabled = True, opt_max_depth = 2, opt_max_pages = 10,
     opt_follow_external_links = True, restrict_to_domain = True,
     opt_ignore_query_strings = True\<rparr>"

definition tree_settings :: settings where
  "tree_settings = crawler_settings (web_of site_tree) options_default ''http://a.com/''"

definition settings_exclude_admin :: settings where
  "settings_exclude_admin = default_settings\<lparr>exclude_url_patterns := [''admin'']\<rparr>"



subsection \<open>Invariants used in the proofs\<close>

text \<open>
  Of the loop of \<open>crawl\<close>: records and queue entries are in depth order, no record is
  deeper than a queue entry, and the depths in the queue differ by at most one.
\<close>

definition bfs_inv :: "crawler \<Rightarrow> bool" where
  "bfs_inv st \<longleftrightarrow>
     sorted (map depth (results st)) \<and> sorted (map snd (url_queue st)) \<and>
     (\<forall>r \<in> set (results st). \<forall>e \<in> set (url_queue st). depth r \<le> snd e) \<and>
     (\<forall>e \<in> set (url_queue st). \<forall>e' \<in> set (url_queue st). snd e' \<le> snd e + 1)"

text \<open>Queue entries and records are on the domain \<open>D\<close> or have no domain.\<close>

definition domains_within :: "web \<Rightarrow> string \<Rightarrow> crawler \<Rightarrow> bool" where
  "domains_within w D st \<longleftrightarrow>
     (\<forall>e \<in> set (url_queue st). get_domain w (fst e) = D \<or> get_domain w (fst e) = []) \<and>
     (\<forall>r \<in> set (results st). domain r = D \<or> domain r = [])"

text \<open>Every record is of a page that loaded.\<close>

definition all_loaded :: "web \<Rightarrow> crawler \<Rightarrow> bool" where
  "all_loaded w st \<longleftrightarrow> (\<forall>r \<in> set (results st). load w (url r) \<noteq> None)"

text \<open>The two state changes of \<open>_crawl_recursive\<close>, named.\<close>

definition visit :: "service_crawler \<Rightarrow> string \<Rightarrow> service_crawler" where
  "visit st x = st\<lparr>svc_visited_urls := insert x (svc_visited_urls st)\<rparr>"

definition record_page :: "service_crawler \<Rightarrow> string \<Rightarrow> page \<Rightarrow> int \<Rightarrow> service_crawler" where
  "record_page st u pg d =
     st\<lparr>pages_data := pages_data st @
           [\<lparr>page_url = u, page_title = title pg, page_description = description pg,
             page_content = content pg\<rparr>],
        pages_depth := pages_depth st @ [d]\<rparr>"

subsection \<open>The sweep as a filter\<close>

lemma fold_remove1_distinct:
  "distinct ys \<Longrightarrow> fold remove1 xs ys = filter (\<lambda>y. y \<notin> set xs) ys"
proof (induction xs arbitrary: ys)
  case Nil
  then show ?case by simp
next
  case (Cons x xs)
  have "remove1 x ys = filter (\<lambda>y. y \<noteq> x) ys"
    using Cons.prems
    by (auto simp: distinct_remove1_removeAll removeAll_filter_not_eq intro: filter_cong)
  moreover have "distinct (remove1 x ys)" using Cons.prems by simp
  ultimately show ?case using Cons.IH [of "remove1 x ys"]
    by (auto intro: filter_cong)
qed

lemma fold_quit_and_remove:
  "fold quit_and_remove xs s =
     s\<lparr>quit_log := quit_log s @ map (\<lambda>a. driver (insts s a)) xs,
       pool := fold remove1 xs (pool s)\<rparr>"
  by (induction xs arbitrary: s) (simp_all add: quit_and_remove_def)

lemma cleanup_eq:
  "distinct (pool s) \<Longrightarrow>
   cleanup cfg now s =
     s\<lparr>quit_log := quit_log s @ map (\<lambda>a. driver (insts s a)) (filter (idle cfg now s) (pool s)),
       pool := filter (\<lambda>a. \<not> idle cfg now s a) (pool s)\<rparr>"
proof -
  assume d: "distinct (pool s)"
  have "filter (\<lambda>y. y \<notin> set (filter (idle cfg now s) (pool s))) (pool s)
      = filter (\<lambda>a. \<not> idle cfg now s a) (pool s)"
    by (rule filter_cong) auto
  then show ?thesis
    unfolding cleanup_def fold_quit_and_remove using d
    by (simp add: fold_remove1_distinct)
qed

subsection \<open>Invariants of the pool\<close>

lemma get_browser_cases:
  assumes "get_browser cfg now created s = (r, s')"
  shows "(pool s' = pool s \<and> next_id s' \<ge> next_id s) \<or>
         (pool s' = pool s @ [next_id s] \<and> next_id s' = Suc (next_id s)
            \<and> int (length (pool s)) < BROWSER_POOL_SIZE cfg)"
  using assms
  by (auto simp: get_browser_def create_instance_def split: option.splits if_splits)

lemma get_browser_cases_snd:
  "(pool (snd (get_browser cfg now created s)) = pool s
      \<and> next_id (snd (get_browser cfg now created s)) \<ge> next_id s) \<or>
   (pool (snd (get_browser cfg now created s)) = pool s @ [next_id s]
      \<and> next_id (snd (get_browser cfg now created s)) = Suc (next_id s)
      \<and> int (length (pool s)) < BROWSER_POOL_SIZE cfg)"
  by (rule get_browser_cases [of cfg now created s "fst (get_browser cfg now created s)"]) simp

lemma pool_wf_get_browser: "pool_wf s \<Longrightarrow> pool_wf (snd (get_browser cfg now created s))"
  using get_browser_cases_snd [of cfg now created s]
  by (fastforce simp: pool_wf_def list_all_iff)

lemma pool_wf_apply_op: "pool_wf s \<Longrightarrow> pool_wf (apply_op cfg s op)"
proof (cases op)
  case (Borrow now created)
  assume "pool_wf s"
  then show ?thesis using Borrow by (simp add: pool_wf_get_browser)
next
  case (Release a now)
  assume "pool_wf s"
  then show ?thesis using Release by (simp add: pool_wf_def release_def)
next
  case (Sweep now)
  assume "pool_wf s"
  then show ?thesis using Sweep by (simp add: pool_wf_def cleanup_eq list_all_iff)
next
  case Shutdown
  assume "pool_wf s"
  then show ?thesis using Shutdown by (simp add: pool_wf_def shutdown_def)
qed

lemma pool_wf_run_ops: "pool_wf s \<Longrightarrow> pool_wf (run_ops cfg s ops)"
  unfolding run_ops_def by (induction ops arbitrary: s) (simp_all add: pool_wf_apply_op)

lemma pool_wf_init: "pool_wf init_pool"
  by (simp add: pool_wf_def init_pool_def)

lemma within_capacity_apply_op:
  assumes "pool_wf s" "within_capacity cfg s"
  shows "within_capacity cfg (apply_op cfg s op)"
proof (cases op)
  case (Borrow now created)
  then show ?thesis using assms get_browser_cases_snd [of cfg now created s]
    by (auto simp: within_capacity_def)
next
  case (Release a now)
  then show ?thesis using assms by (simp add: within_capacity_def release_def)
next
  case (Sweep now)
  have "int (length (filter (\<lambda>a. \<not> idle cfg now s a) (pool s))) \<le> int (length (pool s))"
    by simp
  moreover have "pool (apply_op cfg s op) = filter (\<lambda>a. \<not> idle cfg now s a) (pool s)"
    using assms(1) Sweep by (simp add: pool_wf_def cleanup_eq)
  ultimately show ?thesis using assms(2)
    unfolding within_capacity_def by (metis order_trans)
next
  case Shutdown
  then show ?thesis using assms by (simp add: within_capacity_def shutdown_def)
qed

lemma within_capacity_run_ops:
  "pool_wf s \<Longrightarrow> within_capacity cfg s \<Longrightarrow> within_capacity cfg (run_ops cfg s ops)"
  unfolding run_ops_def
  by (induction ops arbitrary: s) (simp_all add: pool_wf_apply_op within_capacity_apply_op)

lemma outside_apply_op:
  assumes "pool_wf s" "outside a s" shows "outside a (apply_op cfg s op)"
proof (cases op)
  case (Borrow now created)
  then show ?thesis using assms get_browser_cases_snd [of cfg now created s]
    by (auto simp: outside_def)
next
  case (Release a now)
  then show ?thesis using assms by (simp add: outside_def release_def)
next
  case (Sweep now)
  then show ?thesis using assms by (simp add: outside_def pool_wf_def cleanup_eq)
next
  case Shutdown
  then show ?thesis using assms by (simp add: outside_def shutdown_def)
qed

lemma outside_run_ops: "pool_wf s \<Longrightarrow> outside a s \<Longrightarrow> outside a (run_ops cfg s ops)"
  unfolding run_ops_def
  by (induction ops arbitrary: s) (simp_all add: pool_wf_apply_op outside_apply_op)

lemma get_browser_temporary:
  assumes "BROWSER_POOL_SIZE cfg \<le> int (length (pool s))"
    and "list_all (\<lambda>a. in_use (insts s a)) (pool s)"
  shows "get_browser cfg now True s = (Inr (next_id s), snd (create_instance now s))"
proof -
  have "find (\<lambda>a. \<not> in_use (insts s a)) (pool s) = None"
    using assms(2) by (simp add: find_None_iff list_all_iff)
  then show ?thesis using assms(1) by (simp add: get_browser_def create_instance_def)
qed

lemmas pool_defs = run_ops_def get_browser_def create_instance_def new_instance_def init_pool_def
  release_def mark_used_def idle_def

lemma get_browser_init: "get_browser cfg1 0 True init_pool =
   (Inr 0, init_pool\<lparr>insts := (insts init_pool)(0 := \<lparr>driver = 0, last_used = 0, in_use = True\<rparr>),
       next_id := Suc 0, pool := [0]\<rparr>)"
  by (simp add: get_browser_def cfg1_def init_pool_def create_instance_def new_instance_def)

lemma run_ops3:
  "pool (run_ops cfg3 init_pool ops3) = [0, 1, 2]"
  "quit_log (run_ops cfg3 init_pool ops3) = []"
  "insts (run_ops cfg3 init_pool ops3) 0 = \<lparr>driver = 0, last_used = 2, in_use = False\<rparr>"
  "insts (run_ops cfg3 init_pool ops3) (Suc 0) = \<lparr>driver = 1, last_used = 1, in_use = True\<rparr>"
  "insts (run_ops cfg3 init_pool ops3) 2 = \<lparr>driver = 2, last_used = 350, in_use = False\<rparr>"
  by (simp_all add: pool_defs cfg3_def ops3_def eval_nat_numeral)

subsection \<open>Claims about the pool\<close>

text \<open>
  C7. With a non-negative configured capacity, the pool never holds more than
  \<open>BROWSER_POOL_SIZE\<close> instances after any sequence of borrows (whether or not the
  browser launch succeeds), releases, sweeps and shutdowns, starting from the empty pool.
  A borrow made when the pool is at capacity and every pooled instance is in use returns
  a fresh instance and leaves the pool list as it is; that instance is not in the pool,
  no later sequence of operations puts it there, and releasing it leaves the pool list
  unchanged.
\<close>

theorem pool_capacity:
  assumes "0 \<le> BROWSER_POOL_SIZE cfg" and "s = run_ops cfg init_pool ops"
  shows "int (length (pool s)) \<le> BROWSER_POOL_SIZE cfg \<and>
    (BROWSER_POOL_SIZE cfg \<le> int (length (pool s)) \<and> list_all (\<lambda>a. in_use (insts s a)) (pool s) \<longrightarrow>
       (\<exists>a s'. get_browser cfg now True s = (Inr a, s') \<and> pool s' = pool s \<and> a \<notin> set (pool s')
          \<and> a \<notin> set (pool (run_ops cfg s' ops'))
          \<and> pool (release a t (run_ops cfg s' ops')) = pool (run_ops cfg s' ops')))"
proof
  have "within_capacity cfg init_pool"
    using assms(1) by (simp add: within_capacity_def init_pool_def)
  then show "int (length (pool s)) \<le> BROWSER_POOL_SIZE cfg"
    using within_capacity_run_ops [OF pool_wf_init, of cfg ops] assms(2)
    by (simp add: within_capacity_def)
next
  have wf: "pool_wf s" using assms(2) pool_wf_run_ops [OF pool_wf_init] by simp
  show "BROWSER_POOL_SIZE cfg \<le> int (length (pool s)) \<and> list_all (\<lambda>a. in_use (insts s a)) (pool s) \<longrightarrow>
       (\<exists>a s'. get_browser cfg now True s = (Inr a, s') \<and> pool s' = pool s \<and> a \<notin> set (pool s')
          \<and> a \<notin> set (pool (run_ops cfg s' ops'))
          \<and> pool (release a t (run_ops cfg s' ops')) = pool (run_ops cfg s' ops'))"
  proof
    assume full: "BROWSER_POOL_SIZE cfg \<le> int (length (pool s))
        \<and> list_all (\<lambda>a. in_use (insts s a)) (pool s)"
    define a where "a = next_id s"
    define s' where "s' = snd (create_instance now s)"
    have g: "get_browser cfg now True s = (Inr a, s')"
      using full get_browser_temporary [of cfg s now] by (simp add: a_def s'_def)
    have p: "pool s' = pool s" and n: "next_id s' = Suc (next_id s)"
      by (simp_all add: s'_def create_instance_def)
    have wf': "pool_wf s'" using wf p n by (auto simp: pool_wf_def list_all_iff)
    have out: "outside a s'"
      using wf p n by (auto simp: outside_def a_def pool_wf_def list_all_iff)
    have "outside a (run_ops cfg s' ops')" using outside_run_ops [OF wf' out] .
    then have "a \<notin> set (pool (run_ops cfg s' ops'))" by (simp add: outside_def)
    moreover have "a \<notin> set (pool s')" using out by (simp add: outside_def)
    moreover have "pool (release a t (run_ops cfg s' ops')) = pool (run_ops cfg s' ops')"
      by (simp add: release_def)
    ultimately show "\<exists>a s'. get_browser cfg now True s = (Inr a, s') \<and> pool s' = pool s
          \<and> a \<notin> set (pool s') \<and> a \<notin> set (pool (run_ops cfg s' ops'))
          \<and> pool (release a t (run_ops cfg s' ops')) = pool (run_ops cfg s' ops')"
      using g p by blast
  qed
qed

theorem pool_capacity_witness:
  "0 \<le> BROWSER_POOL_SIZE cfg1 \<and>
   int (length (pool (run_ops cfg1 init_pool [Borrow 0 True]))) \<le> BROWSER_POOL_SIZE cfg1 \<and>
   BROWSER_POOL_SIZE cfg1 \<le> int (length (pool (run_ops cfg1 init_pool [Borrow 0 True]))) \<and>
   list_all (\<lambda>a. in_use (insts (run_ops cfg1 init_pool [Borrow 0 True]) a))
     (pool (run_ops cfg1 init_pool [Borrow 0 True])) \<and>
   (\<exists>a s'. get_browser cfg1 1 True (run_ops cfg1 init_pool [Borrow 0 True]) = (Inr a, s')
       \<and> pool s' = pool (run_ops cfg1 init_pool [Borrow 0 True]) \<and> a \<notin> set (pool s')
          \<and> a \<notin> set (pool (run_ops cfg1 s' [Sweep 2]))
          \<and> pool (release a 3 (run_ops cfg1 s' [Sweep 2])) = pool (run_ops cfg1 s' [Sweep 2]))"
proof -
  have h: "0 \<le> BROWSER_POOL_SIZE cfg1" by (simp add: cfg1_def)
  have f: "BROWSER_POOL_SIZE cfg1 \<le> int (length (pool (run_ops cfg1 init_pool [Borrow 0 True]))) \<and>
     list_all (\<lambda>a. in_use (insts (run_ops cfg1 init_pool [Borrow 0 True]) a))
       (pool (run_ops cfg1 init_pool [Borrow 0 True]))"
    by (simp add: run_ops_def get_browser_init) (simp add: cfg1_def)
  show ?thesis
    using pool_capacity [OF h refl, of "[Borrow 0 True]" 1 "[Sweep 2]" 3] h f by blast
qed

text \<open>
  C10. In every state the pool can reach, a sweep at time \<open>now\<close> keeps, in their
  order, exactly the pooled instances that are in use or have
  \<open>now - last_used \<le> BROWSER_MAX_IDLE_TIME\<close>; it calls \<open>quit()\<close> once on the driver
  of each pooled instance that is not in use and has
  \<open>now - last_used > BROWSER_MAX_IDLE_TIME\<close>, and on no other driver; it changes no
  instance. In particular an instance that is in use stays in the pool whatever its age,
  and a free instance stays as long as it has not been idle for longer than the timeout.
\<close>

theorem eviction_sweep:
  assumes "s = run_ops cfg init_pool ops" and "s' = cleanup cfg now s"
  shows "pool s' = filter (\<lambda>a. in_use (insts s a)
              \<or> now - last_used (insts s a) \<le> real_of_int (BROWSER_MAX_IDLE_TIME cfg)) (pool s) \<and>
     quit_log s' = quit_log s @ map (\<lambda>a. driver (insts s a))
        (filter (\<lambda>a. \<not> in_use (insts s a)
              \<and> now - last_used (insts s a) > real_of_int (BROWSER_MAX_IDLE_TIME cfg)) (pool s)) \<and>
     insts s' = insts s \<and>
     (\<forall>a. a \<in> set (pool s') \<longleftrightarrow>
        a \<in> set (pool s) \<and> (in_use (insts s a)
              \<or> now - last_used (insts s a) \<le> real_of_int (BROWSER_MAX_IDLE_TIME cfg))) \<and>
     (\<forall>a \<in> set (pool s). in_use (insts s a) \<longrightarrow> a \<in> set (pool s') \<and> insts s' a = insts s a)"
proof -
  have "pool_wf s" using assms(1) pool_wf_run_ops [OF pool_wf_init] by simp
  then have d: "distinct (pool s)" by (simp add: pool_wf_def)
  have f: "filter (\<lambda>a. \<not> idle cfg now s a) (pool s) = filter (\<lambda>a. in_use (insts s a)
              \<or> now - last_used (insts s a) \<le> real_of_int (BROWSER_MAX_IDLE_TIME cfg)) (pool s)"
    by (rule filter_cong) (auto simp: idle_def)
  have g: "filter (idle cfg now s) (pool s) = filter (\<lambda>a. \<not> in_use (insts s a)
              \<and> now - last_used (insts s a) > real_of_int (BROWSER_MAX_IDLE_TIME cfg)) (pool s)"
    by (rule filter_cong) (auto simp: idle_def)
  show ?thesis using assms(2) f g by (simp add: cleanup_eq [OF d])
qed

theorem eviction_sweep_witness:
  "pool (run_ops cfg3 init_pool ops3) = [0, 1, 2] \<and>
   pool (cleanup cfg3 400 (run_ops cfg3 init_pool ops3)) = [1, 2] \<and>
   quit_log (cleanup cfg3 400 (run_ops cfg3 init_pool ops3)) = [0] \<and>
   \<not> in_use (insts (run_ops cfg3 init_pool ops3) 0) \<and>
   400 - last_used (insts (run_ops cfg3 init_pool ops3) 0) > real_of_int (BROWSER_MAX_IDLE_TIME cfg3) \<and>
   in_use (insts (run_ops cfg3 init_pool ops3) 1) \<and>
   400 - last_used (insts (run_ops cfg3 init_pool ops3) 1) > real_of_int (BROWSER_MAX_IDLE_TIME cfg3) \<and>
   \<not> in_use (insts (run_ops cfg3 init_pool ops3) 2) \<and>
   400 - last_used (insts (run_ops cfg3 init_pool ops3) 2) \<le> real_of_int (BROWSER_MAX_IDLE_TIME cfg3)"
proof -
  have t: "BROWSER_MAX_IDLE_TIME cfg3 = 300" by (simp add: cfg3_def)
  show ?thesis
    using eviction_sweep [OF refl refl, of cfg3 400 ops3]
    by (simp add: run_ops3 t)
qed

text \<open>
  C6. A pool of capacity 1 whose only instance is borrowed: the next borrow creates a
  temporary instance (address 1, driver 1) outside the pool. Releasing it clears
  \<open>in_use\<close> and sets \<open>last_used\<close>, as for a pooled instance, and the pool is unchanged;
  but \<open>quit()\<close> is called on no driver, so the temporary browser stays open.
\<close>

theorem release_temporary_not_closed:
  "fst (get_browser cfg1 1 True pool_full) = Inr 1 \<and>
   pool pool_overflow = [0] \<and>
   in_use (insts pool_overflow 1) \<and>
   driver (insts pool_overflow 1) = 1 \<and>
   pool (release 1 2 pool_overflow) = [0] \<and>
   \<not> in_use (insts (release 1 2 pool_overflow) 1) \<and>
   last_used (insts (release 1 2 pool_overflow) 1) = 2 \<and>
   quit_log (release 1 2 pool_overflow) = []"
  by (simp add: pool_overflow_def pool_full_def pool_defs cfg1_def)

section \<open>Properties of the queue-based crawler\<close>

subsection \<open>What one iteration does to the results\<close>

lemma crawl_page_results:
  "crawl_page w cfg st u d = (st', None) \<or>
   (\<exists>r. crawl_page w cfg st u d = (st', Some r) \<and> url r = u \<and> depth r = d \<and>
      domain r = get_domain w u \<and> load w u \<noteq> None \<and> u \<notin> visited_urls st \<and> d \<le> max_depth cfg)
   \<or> st' \<noteq> fst (crawl_page w cfg st u d)"
  by (auto simp: crawl_page_def Let_def split: option.splits if_splits)

lemma crawl_page_keeps_results: "results (fst (crawl_page w cfg st u d)) = results st"
  by (auto simp: crawl_page_def Let_def split: option.splits)

lemma crawl_iter_results:
  "results (crawl_iter w cfg st item) = results st \<or>
   (\<exists>r. results (crawl_iter w cfg st item) = results st @ [r] \<and> url r = fst item \<and>
      depth r = snd item \<and> domain r = get_domain w (fst item) \<and> load w (fst item) \<noteq> None \<and>
      fst item \<notin> visited_urls st \<and> snd item \<le> max_depth cfg)"
proof (cases "fst item \<in> visited_urls st")
  case True
  then show ?thesis by (simp add: crawl_iter_def Let_def)
next
  case False
  obtain st' pd where c: "crawl_page w cfg st (fst item) (snd item) = (st', pd)"
    by (cases "crawl_page w cfg st (fst item) (snd item)") auto
  have k: "results st' = results st"
    using crawl_page_keeps_results [of w cfg st "fst item" "snd item"] c by simp
  show ?thesis
    using crawl_page_results [of w cfg st "fst item" "snd item" st'] c k False
    by (auto simp: crawl_iter_def Let_def)
qed

text \<open>A property kept by every iteration holds when the loop ends.\<close>

lemma crawl_loop_invariant:
  "(\<And>st item rest. I st \<Longrightarrow> url_queue st = item # rest
       \<Longrightarrow> I (crawl_iter w cfg (st\<lparr>url_queue := rest\<rparr>) item))
   \<Longrightarrow> I st \<Longrightarrow> I (crawl_loop w cfg st)"
proof (induction w cfg st rule: crawl_loop.induct)
  case (1 w cfg st)
  show ?case
  proof (cases "url_queue st")
    case Nil
    then show ?thesis using "1.prems"(2) by (subst crawl_loop.simps) simp
  next
    case (Cons item rest)
    have "I (crawl_iter w cfg (st\<lparr>url_queue := rest\<rparr>) item)"
      using "1.prems"(1) [OF "1.prems"(2) Cons] .
    then have "I (crawl_loop w cfg (crawl_iter w cfg (st\<lparr>url_queue := rest\<rparr>) item))"
      using "1.IH" [OF Cons] "1.prems"(1) by blast
    then show ?thesis using Cons by (subst crawl_loop.simps) simp
  qed
qed

subsection \<open>Depth order\<close>

lemma sorted_map_const: "\<forall>e \<in> set xs. f e = (c::int) \<Longrightarrow> sorted (map f xs)"
  by (induction xs) auto

lemma bfs_inv_step:
  assumes "bfs_inv st" and q: "url_queue st = item # rest"
  shows "bfs_inv (crawl_iter w cfg (st\<lparr>url_queue := rest\<rparr>) item)"
proof -
  let ?st' = "crawl_iter w cfg (st\<lparr>url_queue := rest\<rparr>) item"
  obtain new where n: "url_queue ?st' = rest @ new" "\<forall>e \<in> set new. snd e = snd item + 1"
    using crawl_iter_queue [of w cfg "st\<lparr>url_queue := rest\<rparr>" item] by auto
  have rest_ge: "\<forall>e \<in> set rest. snd item \<le> snd e"
    using assms by (simp add: bfs_inv_def)
  have rest_le: "\<forall>e \<in> set rest. snd e \<le> snd item + 1"
    using assms by (simp add: bfs_inv_def)
  have sr: "sorted (map snd rest)"
    using assms by (simp add: bfs_inv_def)
  have res_le: "\<forall>r \<in> set (results st). depth r \<le> snd item"
    using assms by (simp add: bfs_inv_def)
  have sres: "sorted (map depth (results st))"
    using assms by (simp add: bfs_inv_def)
  have new_ge: "\<forall>e \<in> set (rest @ new). snd item \<le> snd e"
    using rest_ge n(2) by auto
  have new_le: "\<forall>e \<in> set (rest @ new). snd e \<le> snd item + 1"
    using rest_le n(2) by auto
  have sq: "sorted (map snd (rest @ new))"
    using sr rest_le n(2) sorted_map_const [of new snd "snd item + 1"]
    by (auto simp: sorted_append)
  have within: "\<forall>e \<in> set (rest @ new). \<forall>e' \<in> set (rest @ new). snd e' \<le> snd e + 1"
  proof (intro ballI)
    fix e e' assume "e \<in> set (rest @ new)" "e' \<in> set (rest @ new)"
    then have "snd item \<le> snd e" "snd e' \<le> snd item + 1" using new_ge new_le by blast+
    then show "snd e' \<le> snd e + 1" by linarith
  qed
  have res: "results ?st' = results st \<or>
     (\<exists>r. results ?st' = results st @ [r] \<and> depth r = snd item)"
    using crawl_iter_results [of w cfg "st\<lparr>url_queue := rest\<rparr>" item] by auto
  have s': "sorted (map depth (results ?st'))"
    using res sres res_le by (auto simp: sorted_append)
  have le': "\<forall>x \<in> set (results ?st'). \<forall>e \<in> set (rest @ new). depth x \<le> snd e"
  proof (intro ballI)
    fix x e assume x: "x \<in> set (results ?st')" and e: "e \<in> set (rest @ new)"
    have "depth x \<le> snd item" using x res res_le by auto
    moreover have "snd item \<le> snd e" using e new_ge by blast
    ultimately show "depth x \<le> snd e" by linarith
  qed
  show ?thesis
    unfolding bfs_inv_def n(1) using s' sq le' within by blast
qed

lemma bfs_inv_start: "bfs_inv (start_state start_url)"
  by (simp add: bfs_inv_def start_state_def)

lemma bfs_inv_crawl_loop: "bfs_inv st \<Longrightarrow> bfs_inv (crawl_loop w cfg st)"
  by (rule crawl_loop_invariant [where I = bfs_inv]) (auto intro: bfs_inv_step)

lemma crawl_sorted: "sorted (map depth (crawl w cfg start_url))"
  using bfs_inv_crawl_loop [OF bfs_inv_start, of w cfg start_url]
  by (simp add: crawl_def bfs_inv_def)

subsection \<open>Domains\<close>

lemma should_follow_url_same_domain:
  assumes "should_follow_url w cfg st base_url u" and "\<not> follow_external_links cfg"
  shows "get_domain w u = [] \<or> get_domain w u = get_domain w base_url"
  using assms by (auto simp: should_follow_url_def get_domain_def Let_def split: if_splits)

lemma domains_within_step:
  assumes inv: "domains_within w D st" and q: "url_queue st = item # rest"
    and nf: "\<not> follow_external_links cfg"
  shows "domains_within w D (crawl_iter w cfg (st\<lparr>url_queue := rest\<rparr>) item)"
proof -
  let ?st' = "crawl_iter w cfg (st\<lparr>url_queue := rest\<rparr>) item"
  obtain new where n: "url_queue ?st' = rest @ new"
     "\<forall>e \<in> set new. \<exists>st'. should_follow_url w cfg st' (fst item) (fst e)"
    using crawl_iter_queue [of w cfg "st\<lparr>url_queue := rest\<rparr>" item] by auto
  have head: "get_domain w (fst item) = D \<or> get_domain w (fst item) = []"
    using inv q by (simp add: domains_within_def)
  have rest: "\<forall>e \<in> set rest. get_domain w (fst e) = D \<or> get_domain w (fst e) = []"
    using inv q by (simp add: domains_within_def)
  have new: "\<forall>e \<in> set new. get_domain w (fst e) = D \<or> get_domain w (fst e) = []"
  proof
    fix e assume "e \<in> set new"
    then obtain st' where "should_follow_url w cfg st' (fst item) (fst e)" using n(2) by blast
    then have "get_domain w (fst e) = [] \<or> get_domain w (fst e) = get_domain w (fst item)"
      using should_follow_url_same_domain nf by blast
    then show "get_domain w (fst e) = D \<or> get_domain w (fst e) = []" using head by auto
  qed
  have old: "\<forall>r \<in> set (results st). domain r = D \<or> domain r = []"
    using inv by (simp add: domains_within_def)
  have res: "results ?st' = results st \<or>
     (\<exists>r. results ?st' = results st @ [r] \<and> domain r = get_domain w (fst item))"
    using crawl_iter_results [of w cfg "st\<lparr>url_queue := rest\<rparr>" item] by auto
  have res': "\<forall>r \<in> set (results ?st'). domain r = D \<or> domain r = []"
    using res old head by auto
  show ?thesis unfolding domains_within_def n(1) using rest new res' by auto
qed

lemma domains_within_crawl_loop:
  assumes "\<not> follow_external_links cfg" and "domains_within w D st"
  shows "domains_within w D (crawl_loop w cfg st)"
  using assms(2)
  by (rule crawl_loop_invariant [where I = "domains_within w D", rotated])
     (rule domains_within_step [OF _ _ assms(1)])

lemma crawl_domains:
  assumes "\<not> follow_external_links cfg" and "r \<in> set (crawl w cfg start_url)"
  shows "domain r = get_domain w start_url \<or> domain r = []"
proof -
  have "domains_within w (get_domain w start_url) (start_state start_url)"
    by (simp add: domains_within_def start_state_def)
  then have "domains_within w (get_domain w start_url) (crawl_loop w cfg (start_state start_url))"
    using domains_within_crawl_loop [OF assms(1)] by blast
  then show ?thesis using assms(2) by (simp add: crawl_def domains_within_def)
qed

subsection \<open>Pages that fail to load\<close>

lemma all_loaded_step:
  assumes "all_loaded w st" 
  shows "all_loaded w (crawl_iter w cfg (st\<lparr>url_queue := rest\<rparr>) item)"
  using assms crawl_iter_results [of w cfg "st\<lparr>url_queue := rest\<rparr>" item]
  by (auto simp: all_loaded_def)

lemma all_loaded_crawl_loop: "all_loaded w st \<Longrightarrow> all_loaded w (crawl_loop w cfg st)"
  by (rule crawl_loop_invariant [where I = "all_loaded w"]) (auto intro: all_loaded_step)

lemma crawl_loaded:
  assumes "r \<in> set (crawl w cfg start_url)"
  shows "load w (url r) \<noteq> None"
proof -
  have "all_loaded w (start_state start_url)" by (simp add: all_loaded_def start_state_def)
  then have "all_loaded w (crawl_loop w cfg (start_state start_url))"
    by (rule all_loaded_crawl_loop)
  then show ?thesis using assms by (simp add: crawl_def all_loaded_def)
qed

lemma crawl_iter_failed:
  assumes "load w u = None"
  shows "results (crawl_iter w cfg st (u, d)) = results st"
    and "url_queue (crawl_iter w cfg st (u, d)) = url_queue st"
    and "visited_urls st \<subseteq> visited_urls (crawl_iter w cfg st (u, d))"
    and "d \<le> max_depth cfg \<Longrightarrow> \<not> domain_full cfg (pages_crawled_per_domain st) (get_domain w u)
           \<Longrightarrow> u \<in> visited_urls (crawl_iter w cfg st (u, d))"
  using assms by (auto simp: crawl_iter_def crawl_page_def Let_def)

lemma crawl_iter_visited: "u \<in> visited_urls st \<Longrightarrow> crawl_iter w cfg st (u, d) = st"
  by (simp add: crawl_iter_def)

lemma crawl_iter_visited_mono: "visited_urls st \<subseteq> visited_urls (crawl_iter w cfg st item)"
  by (auto simp: crawl_iter_def crawl_page_def Let_def split: option.splits)

lemma crawl_loop_Cons:
  "crawl_loop w cfg (st\<lparr>url_queue := item # rest\<rparr>)
     = crawl_loop w cfg (crawl_iter w cfg (st\<lparr>url_queue := rest\<rparr>) item)"
  by (subst crawl_loop.simps) simp

section \<open>Properties of the recursive crawler\<close>

lemma crawl_recursive_unfold:
  "crawl_recursive w cfg st u d =
     (if d > max_depth cfg \<or> int (length (pages_data st)) \<ge> max_pages cfg
         \<or> (if ignore_query_strings cfg then normalize_url w u else u) \<in> svc_visited_urls st
      then st
      else case load w u of
             None \<Rightarrow> visit st (if ignore_query_strings cfg then normalize_url w u else u)
           | Some pg \<Rightarrow>
               if d < max_depth cfg \<and> int (length (pages_data st)) + 1 < max_pages cfg then
                 crawl_links w cfg
                   (record_page (visit st (if ignore_query_strings cfg then normalize_url w u else u)) u pg d)
                   (filter (svc_should_follow_url w cfg u) (svc_extract_links (hrefs pg))) d
               else record_page (visit st (if ignore_query_strings cfg then normalize_url w u else u)) u pg d)"
  by (simp add: crawl_recursive.simps Let_def visit_def record_page_def split: option.splits)

declare crawl_recursive.simps [simp del]

text \<open>
  A property of the state that marking a URL and recording a page keep, for URLs that a
  property \<open>G\<close> closed under link following holds of, is kept by the whole recursion.
\<close>

lemma crawl_recursive_invariant_aux:
  fixes I :: "service_crawler \<Rightarrow> bool" and G :: "string \<Rightarrow> bool"
  shows "(\<And>st x. I st \<Longrightarrow> I (visit st x))
    \<Longrightarrow> (\<And>st u pg d. I st \<Longrightarrow> G u \<Longrightarrow> load w u = Some pg
          \<Longrightarrow> int (length (pages_data st)) < max_pages cfg \<Longrightarrow> I (record_page st u pg d))
    \<Longrightarrow> (\<And>u l. G u \<Longrightarrow> svc_should_follow_url w cfg u l \<Longrightarrow> G l)
    \<Longrightarrow> I st \<Longrightarrow> G u \<Longrightarrow> I (crawl_recursive w cfg st u d)"
    and "(\<And>st x. I st \<Longrightarrow> I (visit st x))
    \<Longrightarrow> (\<And>st u pg d. I st \<Longrightarrow> G u \<Longrightarrow> load w u = Some pg
          \<Longrightarrow> int (length (pages_data st)) < max_pages cfg \<Longrightarrow> I (record_page st u pg d))
    \<Longrightarrow> (\<And>u l. G u \<Longrightarrow> svc_should_follow_url w cfg u l \<Longrightarrow> G l)
    \<Longrightarrow> I st \<Longrightarrow> \<forall>l \<in> set links. G l \<Longrightarrow> I (crawl_links w cfg st links d)"
proof (induction w cfg st u d and w cfg st links d rule: crawl_recursive_crawl_links.induct)
  case (1 w cfg st u d)
  note mark = "1.prems"(1) and add = "1.prems"(2) and follow = "1.prems"(3)
    and Ist = "1.prems"(4) and Gu = "1.prems"(5)
  define x where "x = (if ignore_query_strings cfg then normalize_url w u else u)"
  show ?case
  proof (cases "d > max_depth cfg \<or> int (length (pages_data st)) \<ge> max_pages cfg
         \<or> x \<in> svc_visited_urls st")
    case True
    then have "crawl_recursive w cfg st u d = st"
      by (subst crawl_recursive_unfold) (simp add: x_def)
    then show ?thesis using Ist by simp
  next
    case False
    show ?thesis
    proof (cases "load w u")
      case None
      have "crawl_recursive w cfg st u d = visit st x"
        using False None by (subst crawl_recursive_unfold) (simp add: x_def)
      then show ?thesis using mark [OF Ist] by simp
    next
      case (Some pg)
      let ?st2 = "record_page (visit st x) u pg d"
      have len: "int (length (pages_data (visit st x))) < max_pages cfg"
        using False by (simp add: visit_def)
      have I2: "I ?st2"
        using add [OF mark [OF Ist] Gu Some len] .
      show ?thesis
      proof (cases "d < max_depth cfg \<and> int (length (pages_data st)) + 1 < max_pages cfg")
        case no: False
        have "crawl_recursive w cfg st u d = ?st2"
          using False Some no by (subst crawl_recursive_unfold) (auto simp: x_def)
        then show ?thesis using I2 by simp
      next
        case yes: True
        let ?ls = "filter (svc_should_follow_url w cfg u) (svc_extract_links (hrefs pg))"
        have eq: "crawl_recursive w cfg st u d = crawl_links w cfg ?st2 ?ls d"
          using False Some yes by (subst crawl_recursive_unfold) (simp add: x_def)
        have Gl: "\<forall>l \<in> set ?ls. G l" using follow [OF Gu] by simp
        have v: "visit st x = st\<lparr>svc_visited_urls := insert x (svc_visited_urls st)\<rparr>"
          by (simp add: visit_def)
        have st2: "?st2 = (visit st x)\<lparr>pages_data := pages_data (visit st x) @
              [\<lparr>page_url = u, page_title = title pg, page_description = description pg,
                page_content = content pg\<rparr>],
              pages_depth := pages_depth (visit st x) @ [d]\<rparr>"
          by (simp add: record_page_def)
        have c1: "\<not> max_depth cfg < d" and c2: "\<not> max_pages cfg \<le> int (length (pages_data st))"
          and c3: "x \<notin> svc_visited_urls st"
          using False by auto
        have c4: "d < max_depth cfg \<and> int (length (pages_data ?st2)) < max_pages cfg"
          using yes by (simp add: record_page_def visit_def)
        have "I (crawl_links w cfg ?st2 ?ls d)"
          by (rule "1.IH" [OF c1 c2 x_def c3 v Some st2 c4 mark add follow I2 Gl])
        then show ?thesis using eq by simp
      qed
    qed
  qed
next
  case (2 w cfg st d)
  then show ?case by simp
next
  case (3 w cfg st link links d)
  note mark = "3.prems"(1) and add = "3.prems"(2) and follow = "3.prems"(3)
    and Ist = "3.prems"(4) and Gl = "3.prems"(5)
  show ?case
  proof (cases "int (length (pages_data st)) < max_pages cfg")
    case True
    have g1: "G link" using Gl by simp
    have a: "I (crawl_recursive w cfg st link (d + 1))"
      by (rule "3.IH"(1) [OF True mark add follow Ist g1])
    have g2: "\<forall>l \<in> set links. G l" using Gl by simp
    have "I (crawl_links w cfg (crawl_recursive w cfg st link (d + 1)) links d)"
      by (rule "3.IH"(2) [OF True mark add follow a g2])
    then show ?thesis using True by simp
  next
    case False
    then show ?thesis using Ist by simp
  qed
qed

text \<open>The recursive crawler never holds more than \<open>max_pages\<close> records.\<close>

lemma svc_page_bound_state:
  "int (length (pages_data st)) \<le> max_pages cfg
     \<Longrightarrow> int (length (pages_data (crawl_recursive w cfg st u d))) \<le> max_pages cfg"
  by (rule crawl_recursive_invariant_aux(1)
        [where I = "\<lambda>st. int (length (pages_data st)) \<le> max_pages cfg" and G = "\<lambda>u. True"])
     (simp_all add: visit_def record_page_def)

lemma svc_page_bound:
  "0 \<le> max_pages cfg \<Longrightarrow> int (length (pages_data (svc_crawl w cfg start_url))) \<le> max_pages cfg"
  unfolding svc_crawl_def by (rule svc_page_bound_state) simp

lemma svc_should_follow_url_listed:
  "svc_should_follow_url w cfg base_url u \<Longrightarrow> restrict_to_domains cfg \<noteq> []
     \<Longrightarrow> get_domain w u \<in> set (restrict_to_domains cfg)"
  by (auto simp: svc_should_follow_url_def split: if_splits)

lemma svc_crawl_domains:
  assumes "restrict_to_domains cfg = [get_domain w start_url]"
    and "p \<in> set (pages_data (svc_crawl w cfg start_url))"
  shows "get_domain w (page_url p) = get_domain w start_url"
proof -
  let ?D = "get_domain w start_url"
  let ?I = "\<lambda>st. \<forall>p \<in> set (pages_data st). get_domain w (page_url p) = ?D"
  have "?I (svc_crawl w cfg start_url)"
    unfolding svc_crawl_def
  proof (rule crawl_recursive_invariant_aux(1) [where I = ?I and G = "\<lambda>u. get_domain w u = ?D"])
    show "\<And>u l. get_domain w u = ?D \<Longrightarrow> svc_should_follow_url w cfg u l \<Longrightarrow> get_domain w l = ?D"
      using svc_should_follow_url_listed [of w cfg] assms(1) by fastforce
  qed (simp_all add: visit_def record_page_def)
  then show ?thesis using assms(2) by blast
qed

text \<open>Where the exclusion patterns are reached, a matching URL is rejected.\<close>

lemma svc_excluded_url_rejected:
  "list_ex (\<lambda>pattern. contains u pattern) (exclude_url_patterns cfg)
     \<Longrightarrow> \<not> svc_should_follow_url w cfg base_url u"
  by (simp add: svc_should_follow_url_def)

lemma excluded_url_rejected:
  "list_ex (\<lambda>pattern. re_search w pattern u) (exclude_url_patterns cfg)
     \<Longrightarrow> netloc (urlparse w u) \<noteq> [] \<Longrightarrow> \<not> should_follow_url w cfg st base_url u"
  by (auto simp: should_follow_url_def Let_def)

section \<open>Claims about the crawlers\<close>

text \<open>
  C1. The queue-based crawler has no bound on the total number of records. Called the
  way app_simple.py calls it, with \<open>max_pages = 1\<close>, \<open>max_depth = 1\<close> and external
  links followed, on a page of a.com that links to a page of b.com, it returns two
  records: \<open>max_pages\<close> reaches the crawler only as the cap per domain, and the loop of
  \<open>crawl\<close> tests no limit.
\<close>

theorem crawl_exceeds_max_pages:
  "opt_max_pages options_one_page = 1 \<and>
   map url (app_simple_crawl (web_of site_two_domains) options_one_page ''http://a.com/'')
     = [''http://a.com/'', ''http://b.com/''] \<and>
   length (app_simple_crawl (web_of site_two_domains) options_one_page ''http://a.com/'') = 2"
  by code_simp

text \<open>
  C2. With \<open>ignore_query_strings\<close> on, the queue-based crawler fetches and records
  both \<open>http://a.com/p?x=1\<close> and \<open>http://a.com/p?x=2\<close>, which have the same canonical
  URL \<open>http://a.com/p\<close>: \<open>crawl_page\<close> puts the URL as it is into \<open>visited_urls\<close>,
  while \<open>should_follow_url\<close> looks the canonical URL up there.
\<close>

theorem crawl_repeats_canonical_url:
  "ignore_query_strings default_settings \<and>
   map url (crawl (web_of site_query) default_settings ''http://a.com/'')
     = [''http://a.com/'', ''http://a.com/p?x=1'', ''http://a.com/p?x=2''] \<and>
   map (\<lambda>r. normalize_url (web_of site_query) (url r))
       (crawl (web_of site_query) default_settings ''http://a.com/'')
     = [''http://a.com/'', ''http://a.com/p'', ''http://a.com/p'']"
  by code_simp

text \<open>
  In \<open>should_follow_url\<close> of crawler.py the list \<open>restrict_to_domains\<close> decides
  nothing when external links are followed, and nothing on a page of the listed domain.
\<close>

lemma restrict_list_unused_when_following:
  "follow_external_links cfg \<Longrightarrow>
     should_follow_url w cfg st base_url u
       = should_follow_url w (cfg\<lparr>restrict_to_domains := ds\<rparr>) st base_url u"
  by (auto simp: should_follow_url_def Let_def domain_full_def split: option.splits)

lemma restrict_list_unused_on_base_domain:
  "restrict_to_domains cfg = [get_domain w base_url] \<Longrightarrow>
     should_follow_url w cfg st base_url u
       = should_follow_url w (cfg\<lparr>restrict_to_domains := []\<rparr>) st base_url u"
  by (auto simp: should_follow_url_def Let_def domain_full_def is_allowed_domain_def get_domain_def
        split: option.splits)

text \<open>
  C3. Called the way app_simple.py calls it, with \<open>restrict_to_domain\<close> true and
  external links followed, on a page of a.com that links to a page of b.com, the
  queue-based crawler records the page of b.com; the crawl is the same as with
  \<open>restrict_to_domain\<close> false. On the same input the recursive crawler of
  scraping_service.py records only the page of a.com, and both pages once
  \<open>restrict_to_domain\<close> is false.
\<close>

theorem restrict_to_domain_ignored:
  "restrict_to_domain options_mixed \<and>
   get_domain (web_of site_two_domains) ''http://a.com/'' = ''a.com'' \<and>
   map domain (app_simple_crawl (web_of site_two_domains) options_mixed ''http://a.com/'')
     = [''a.com'', ''b.com''] \<and>
   app_simple_crawl (web_of site_two_domains) (options_mixed\<lparr>restrict_to_domain := False\<rparr>)
       ''http://a.com/''
     = app_simple_crawl (web_of site_two_domains) options_mixed ''http://a.com/'' \<and>
   map (\<lambda>p. get_domain (web_of site_two_domains) (page_url p))
       (scrape_with_selenium_crawl (web_of site_two_domains) [] options_mixed ''http://a.com/'')
     = [''a.com''] \<and>
   map page_url (scrape_with_selenium_crawl (web_of site_two_domains) []
       (options_mixed\<lparr>restrict_to_domain := False\<rparr>) ''http://a.com/'')
     = [''http://a.com/'', ''http://b.com/'']"
  by code_simp




text \<open>
  C5, as stated, fails for the recursive crawler: from a start page that links to x and
  y, where x links to z, it records start, x, z, y, produced at depths 1, 2, 3, 2.
\<close>

theorem recursive_order_counterexample:
  "map page_url (pages_data (svc_crawl (web_of site_tree)
       (service_settings (web_of site_tree) [] options_default ''http://a.com/'') ''http://a.com/''))
     = [''http://a.com/'', ''http://a.com/x'', ''http://a.com/x/z'', ''http://a.com/y''] \<and>
   pages_depth (svc_crawl (web_of site_tree)
       (service_settings (web_of site_tree) [] options_default ''http://a.com/'') ''http://a.com/'')
     = [1, 2, 3, 2]"
  by code_simp

text \<open>
  C5, amended. The records returned by the queue-based crawler are in depth order: the
  list of their depths is sorted, so a record at a smaller depth always comes before a
  record at a greater depth.
\<close>

theorem breadth_first_order:
  "sorted (map depth (crawl w cfg start_url)) \<and>
   (\<forall>i j. i < length (crawl w cfg start_url) \<and> j < length (crawl w cfg start_url) \<and>
       depth (crawl w cfg start_url ! j) < depth (crawl w cfg start_url ! i) \<longrightarrow> j < i)"
proof
  show s: "sorted (map depth (crawl w cfg start_url))" by (rule crawl_sorted)
  show "\<forall>i j. i < length (crawl w cfg start_url) \<and> j < length (crawl w cfg start_url) \<and>
       depth (crawl w cfg start_url ! j) < depth (crawl w cfg start_url ! i) \<longrightarrow> j < i"
  proof (intro allI impI)
    fix i j
    assume h: "i < length (crawl w cfg start_url) \<and> j < length (crawl w cfg start_url) \<and>
       depth (crawl w cfg start_url ! j) < depth (crawl w cfg start_url ! i)"
    show "j < i"
    proof (rule ccontr)
      assume "\<not> j < i"
      then have "i \<le> j" by simp
      then have "map depth (crawl w cfg start_url) ! i \<le> map depth (crawl w cfg start_url) ! j"
        using s h by (intro sorted_nth_mono) auto
      then show False using h by simp
    qed
  qed
qed

theorem breadth_first_order_witness:
  "map depth (crawl (web_of site_tree) tree_settings ''http://a.com/'') = [0, 1, 1, 2] \<and>
   sorted (map depth (crawl (web_of site_tree) tree_settings ''http://a.com/'')) \<and>
   3 < length (crawl (web_of site_tree) tree_settings ''http://a.com/'') \<and>
   depth (crawl (web_of site_tree) tree_settings ''http://a.com/'' ! 1)
     < depth (crawl (web_of site_tree) tree_settings ''http://a.com/'' ! 3) \<and> (1::nat) < 3"
proof -
  have e: "map depth (crawl (web_of site_tree) tree_settings ''http://a.com/'') = [0, 1, 1, 2]"
    by code_simp
  have l: "3 < length (crawl (web_of site_tree) tree_settings ''http://a.com/'')"
    by code_simp
  have d: "depth (crawl (web_of site_tree) tree_settings ''http://a.com/'' ! 1)
     < depth (crawl (web_of site_tree) tree_settings ''http://a.com/'' ! 3)"
    by code_simp
  show ?thesis
    using breadth_first_order [of "web_of site_tree" tree_settings "''http://a.com/''"] e l d
    by simp
qed

text \<open>
  C8. With the exclusion pattern \<open>admin\<close>, \<open>should_follow_url\<close> of crawler.py
  accepts \<open>mailto:admin@a.com\<close>, which matches the pattern: a URL without a network
  location returns \<open>True\<close> before the patterns are looked at. The URL is then put in
  the queue. A matching URL with a network location is rejected.
\<close>

theorem excluded_url_followed:
  "re_search (web_of site_mailto) ''admin'' ''mailto:admin@a.com'' \<and>
   exclude_url_patterns settings_exclude_admin = [''admin''] \<and>
   should_follow_url (web_of site_mailto) settings_exclude_admin (start_state ''http://a.com/'')
     ''http://a.com/'' ''mailto:admin@a.com'' \<and>
   \<not> should_follow_url (web_of site_mailto) settings_exclude_admin (start_state ''http://a.com/'')
     ''http://a.com/'' ''http://a.com/admin/users'' \<and>
   url_queue (crawl_iter (web_of site_mailto) settings_exclude_admin
       ((start_state ''http://a.com/'')\<lparr>url_queue := []\<rparr>) (''http://a.com/'', 0))
     = [(''mailto:admin@a.com'', 1)]"
  by code_simp

text \<open>
  C9. When loading \<open>u\<close> fails, the iteration of the loop that took \<open>(u, d)\<close> from the
  queue adds no record and leaves the rest of the queue as it was, and the crawl goes on
  from that state. If the load was attempted (the depth and the domain's counter
  allowed it), \<open>u\<close> is then in \<open>visited_urls\<close>; \<open>visited_urls\<close> never shrinks, and
  an entry for a visited URL is dropped without a load, so \<open>u\<close> is not loaded again.
  No record of the finished crawl has the URL \<open>u\<close>. The crawl is a total function: it
  returns its list of records whatever pages fail.
\<close>

theorem page_failure_skipped:
  assumes "load w u = None"
  shows "results (crawl_iter w cfg (st\<lparr>url_queue := rest\<rparr>) (u, d)) = results st \<and>
         url_queue (crawl_iter w cfg (st\<lparr>url_queue := rest\<rparr>) (u, d)) = rest \<and>
         crawl_loop w cfg (st\<lparr>url_queue := (u, d) # rest\<rparr>)
           = crawl_loop w cfg (crawl_iter w cfg (st\<lparr>url_queue := rest\<rparr>) (u, d)) \<and>
         (d \<le> max_depth cfg \<and> \<not> domain_full cfg (pages_crawled_per_domain st) (get_domain w u)
            \<longrightarrow> u \<in> visited_urls (crawl_iter w cfg (st\<lparr>url_queue := rest\<rparr>) (u, d))) \<and>
         (\<forall>st' item. visited_urls st' \<subseteq> visited_urls (crawl_iter w cfg st' item)) \<and>
         (\<forall>st' d'. u \<in> visited_urls st' \<longrightarrow> crawl_iter w cfg st' (u, d') = st') \<and>
         (\<forall>r \<in> set (crawl w cfg start_url). url r \<noteq> u)"
proof (intro conjI)
  show "results (crawl_iter w cfg (st\<lparr>url_queue := rest\<rparr>) (u, d)) = results st"
    using crawl_iter_failed(1) [OF assms, of cfg "st\<lparr>url_queue := rest\<rparr>" d] by simp
  show "url_queue (crawl_iter w cfg (st\<lparr>url_queue := rest\<rparr>) (u, d)) = rest"
    using crawl_iter_failed(2) [OF assms, of cfg "st\<lparr>url_queue := rest\<rparr>" d] by simp
  show "crawl_loop w cfg (st\<lparr>url_queue := (u, d) # rest\<rparr>)
           = crawl_loop w cfg (crawl_iter w cfg (st\<lparr>url_queue := rest\<rparr>) (u, d))"
    by (rule crawl_loop_Cons)
  show "d \<le> max_depth cfg \<and> \<not> domain_full cfg (pages_crawled_per_domain st) (get_domain w u)
            \<longrightarrow> u \<in> visited_urls (crawl_iter w cfg (st\<lparr>url_queue := rest\<rparr>) (u, d))"
    using crawl_iter_failed(4) [OF assms, of d cfg "st\<lparr>url_queue := rest\<rparr>"] by simp
  show "\<forall>st' item. visited_urls st' \<subseteq> visited_urls (crawl_iter w cfg st' item)"
    using crawl_iter_visited_mono by blast
  show "\<forall>st' d'. u \<in> visited_urls st' \<longrightarrow> crawl_iter w cfg st' (u, d') = st'"
    using crawl_iter_visited by blast
  show "\<forall>r \<in> set (crawl w cfg start_url). url r \<noteq> u"
  proof
    fix r assume "r \<in> set (crawl w cfg start_url)"
    then have "load w (url r) \<noteq> None" by (rule crawl_loaded)
    then show "url r \<noteq> u" using assms by auto
  qed
qed

theorem page_failure_skipped_witness:
  "load (web_of site_tree) ''http://a.com/bad'' = None \<and>
   list_all (\<lambda>r. url r \<noteq> ''http://a.com/bad'')
     (crawl (web_of site_tree) tree_settings ''http://a.com/'') \<and>
   map url (crawl (web_of site_tree) tree_settings ''http://a.com/'')
     = [''http://a.com/'', ''http://a.com/x'', ''http://a.com/y'', ''http://a.com/x/z''] \<and>
   hrefs (the (load (web_of site_tree) ''http://a.com/''))
     = [''http://a.com/x'', ''http://a.com/bad'', ''http://a.com/y'']"
proof -
  have h: "load (web_of site_tree) ''http://a.com/bad'' = None" by code_simp
  have e: "map url (crawl (web_of site_tree) tree_settings ''http://a.com/'')
     = [''http://a.com/'', ''http://a.com/x'', ''http://a.com/y'', ''http://a.com/x/z'']"
    by code_simp
  have l: "hrefs (the (load (web_of site_tree) ''http://a.com/''))
     = [''http://a.com/x'', ''http://a.com/bad'', ''http://a.com/y'']"
    by code_simp
  show ?thesis
    using page_failure_skipped [OF h, of tree_settings _ _ _ "''http://a.com/''"] h e l
    unfolding list_all_iff by blast
qed

end
